theory Spec2Isabelle
  imports Main
begin

section \<open>Strings, slices and searches as Python has them\<close>

text \<open>
  A Python \<open>str\<close> is a sequence of code points, and every offset of \<open>rlm/core.py\<close>
  counts code points. A document is therefore a list of code points (natural numbers);
  \<open>lit\<close> reads an ASCII literal as such a list.
\<close>

type_synonym pystr = "nat list"

definition lit :: "string \<Rightarrow> pystr" where
  "lit s = map of_char s"

text \<open>\<open>len(s)\<close>, a Python integer.\<close>

definition len :: "'a list \<Rightarrow> int" where
  "len s = int (length s)"

text \<open>
  An index of a slice or of a search range, as Python normalises it against the length:
  a negative index counts from the end, and the result is clipped to \<open>0 .. len\<close>.
\<close>

definition clip_index :: "int \<Rightarrow> int \<Rightarrow> nat" where
  "clip_index n i = (if i < 0 then nat (max 0 (i + n)) else nat (min i n))"

text \<open>\<open>s[a:b]\<close>.\<close>

definition py_slice :: "'a list \<Rightarrow> int \<Rightarrow> int \<Rightarrow> 'a list" where
  "py_slice s a b =
     (let lo = clip_index (len s) a; hi = clip_index (len s) b
      in take (hi - lo) (drop lo s))"

text \<open>
  \<open>s.rfind(sub, start, end)\<close>: the highest index \<open>i\<close> with \<open>sub\<close> lying inside
  \<open>s[start:end]\<close> at \<open>i\<close>, or \<open>-1\<close>. The two bounds are normalised as slice indices
  are. \<open>rfind_scan s sub lo k\<close> tries the \<open>k\<close> candidates \<open>lo + k - 1\<close> down to \<open>lo\<close>.
\<close>

fun rfind_scan :: "pystr \<Rightarrow> pystr \<Rightarrow> nat \<Rightarrow> nat \<Rightarrow> int" where
  "rfind_scan s sub lo 0 = - 1"
| "rfind_scan s sub lo (Suc k) =
     (if take (length sub) (drop (lo + k) s) = sub then int (lo + k)
      else rfind_scan s sub lo k)"

definition rfind :: "pystr \<Rightarrow> pystr \<Rightarrow> int \<Rightarrow> int \<Rightarrow> int" where
  "rfind s sub start end =
     (let lo = clip_index (len s) start; hi = clip_index (len s) end
      in rfind_scan s sub lo (Suc hi - (lo + length sub)))"

section \<open>Chunks\<close>

record ChunkInfo =
  index :: int
  start_char :: int
  end_char :: int
  content :: pystr
  token_estimate :: int

definition NEWLINE :: pystr where
  "NEWLINE = lit ''\<newline>''"

definition PERIOD_SPACE :: pystr where
  "PERIOD_SPACE = lit ''. ''"

section \<open>The uniform strategy: \<open>chunk_document\<close>\<close>

text \<open>
  The end of the chunk that starts at \<open>start\<close>: the provisional end
  \<open>min(start + chunk_size, len(document))\<close>, moved back to a line break or to a
  period and space of the 200 code points before it when it is not the end of the document.
\<close>

definition chunk_end :: "pystr \<Rightarrow> int \<Rightarrow> int \<Rightarrow> int" where
  "chunk_end document chunk_size start =
     (let end = min (start + chunk_size) (len document) in
      if end < len document then
        (let newline_pos = rfind document NEWLINE (end - 200) end in
         if newline_pos > start then newline_pos + 1
         else
           (let period_pos = rfind document PERIOD_SPACE (end - 200) end in
            if period_pos > start then period_pos + 2 else end))
      else end)"

definition make_chunk :: "int \<Rightarrow> int \<Rightarrow> int \<Rightarrow> pystr \<Rightarrow> ChunkInfo" where
  "make_chunk i s e c =
     \<lparr>index = i, start_char = s, end_char = e, content = c, token_estimate = len c div 4\<rparr>"

definition next_start :: "pystr \<Rightarrow> int \<Rightarrow> int \<Rightarrow> int" where
  "next_start document overlap end =
     (if end < len document then end - overlap else end)"

text \<open>
  The \<open>while\<close> loop of \<open>chunk_document\<close>, on its three variables. The loop need not
  end, so the result is an option: \<open>None\<close> is a run that never returns.
\<close>

partial_function (option) chunk_loop ::
  "pystr \<Rightarrow> int \<Rightarrow> int \<Rightarrow> int \<Rightarrow> int \<Rightarrow> ChunkInfo list \<Rightarrow> ChunkInfo list option" where
  "chunk_loop document chunk_size overlap start idx chunks =
     (if start < len document then
        chunk_loop document chunk_size overlap
          (next_start document overlap (chunk_end document chunk_size start))
          (idx + 1)
          (chunks @ [make_chunk idx start (chunk_end document chunk_size start)
                       (py_slice document start (chunk_end document chunk_size start))])
      else Some chunks)"

declare chunk_loop.simps [code]

definition chunk_document :: "pystr \<Rightarrow> int \<Rightarrow> int \<Rightarrow> ChunkInfo list option" where
  "chunk_document document chunk_size overlap = chunk_loop document chunk_size overlap 0 0 []"

section \<open>Whitespace and the regular expressions of the source\<close>

text \<open>
  The code points for which \<open>str.isspace\<close> holds. The class \<open>\s\<close> of a \<open>str\<close>
  pattern and \<open>str.strip()\<close> use the same set.
\<close>

definition is_space :: "nat \<Rightarrow> bool" where
  "is_space c =
     ((9 \<le> c \<and> c \<le> 13) \<or> (28 \<le> c \<and> c \<le> 32) \<or> c = 133 \<or> c = 160 \<or> c = 5760 \<or>
      (8192 \<le> c \<and> c \<le> 8202) \<or> c = 8232 \<or> c = 8233 \<or> c = 8239 \<or> c = 8287 \<or>
      c = 12288)"

text \<open>\<open>s.strip()\<close>.\<close>

definition strip :: "pystr \<Rightarrow> pystr" where
  "strip s = rev (dropWhile is_space (rev (dropWhile is_space s)))"

text \<open>
  The matchers below follow the backtracking of Python's \<open>re\<close>: a greedy repetition
  first takes one more item, and gives it back when the rest of the pattern fails. Each
  returns the length of the match at the head of its argument, \<open>None\<close> when there is none.

  \<open>ws_star_nl\<close> is \<open>\s*\n\<close> and \<open>blank_sep\<close> is \<open>\n\s*\n\<close>, the separator of
  \<open>chunk_by_paragraphs\<close>.
\<close>

fun ws_star_nl :: "pystr \<Rightarrow> nat option" where
  "ws_star_nl [] = None"
| "ws_star_nl (c # cs) =
     (if is_space c then
        (case ws_star_nl cs of
           Some k \<Rightarrow> Some (Suc k)
         | None \<Rightarrow> if c = 10 then Some 1 else None)
      else None)"

definition blank_sep :: "pystr \<Rightarrow> nat option" where
  "blank_sep s =
     (case s of [] \<Rightarrow> None
      | c # cs \<Rightarrow> if c = 10 then map_option Suc (ws_star_nl cs) else None)"

text \<open>
  \<open>re.split(r'\n\s*\n', document)\<close>: the text between the successive matches, found
  from left to right, each search starting where the last match ended. The first argument
  is the piece read since the last match.
\<close>

function split_blank :: "pystr \<Rightarrow> pystr \<Rightarrow> pystr list" where
  "split_blank piece [] = [piece]"
| "split_blank piece (c # cs) =
     (case blank_sep (c # cs) of
        Some k \<Rightarrow> piece # split_blank [] (drop k (c # cs))
      | None \<Rightarrow> split_blank (piece @ [c]) cs)"
  by pat_completeness auto
termination
  by (relation "measure (\<lambda>(piece, s). length s)")
     (auto simp: blank_sep_def split: if_splits)

definition re_split_paragraphs :: "pystr \<Rightarrow> pystr list" where
  "re_split_paragraphs document = split_blank [] document"

text \<open>
  The heading pattern \<open>^#{1,6}\s+.+$\<close> under \<open>re.MULTILINE\<close>. \<open>dot_plus_eol\<close> is
  \<open>.+$\<close>: the dot takes every code point but the line break, so the greedy run ends at
  the end of the line, where \<open>$\<close> holds. \<open>ws_plus_rest\<close> is \<open>\s+.+$\<close>,
  \<open>hashes_rest m\<close> is \<open>#{0,m}\s+.+$\<close>, and \<open>header_at\<close> is the pattern after \<open>^\<close>.
\<close>

definition dot_plus_eol :: "pystr \<Rightarrow> nat option" where
  "dot_plus_eol s =
     (case takeWhile (\<lambda>c. c \<noteq> 10) s of [] \<Rightarrow> None | c # cs \<Rightarrow> Some (Suc (length cs)))"

fun ws_plus_rest :: "pystr \<Rightarrow> nat option" where
  "ws_plus_rest [] = None"
| "ws_plus_rest (c # cs) =
     (if is_space c then
        (case ws_plus_rest cs of
           Some k \<Rightarrow> Some (Suc k)
         | None \<Rightarrow> map_option Suc (dot_plus_eol cs))
      else None)"

fun hashes_rest :: "nat \<Rightarrow> pystr \<Rightarrow> nat option" where
  "hashes_rest 0 s = ws_plus_rest s"
| "hashes_rest (Suc m) [] = ws_plus_rest []"
| "hashes_rest (Suc m) (c # cs) =
     (if c = 35 then
        (case hashes_rest m cs of
           Some k \<Rightarrow> Some (Suc k)
         | None \<Rightarrow> ws_plus_rest (c # cs))
      else ws_plus_rest (c # cs))"

definition header_at :: "pystr \<Rightarrow> nat option" where
  "header_at s =
     (case s of [] \<Rightarrow> None
      | c # cs \<Rightarrow> if c = 35 then map_option Suc (hashes_rest 5 cs) else None)"

text \<open>
  \<open>re.split(r'(^#{1,6}\s+.+$)', document, flags=re.MULTILINE)\<close>: as above, and the
  group puts every match into the result too. The flag \<open>bol\<close> says that the position
  is the start of the document or follows a line break, where \<open>^\<close> holds.
\<close>

function split_hdr :: "bool \<Rightarrow> pystr \<Rightarrow> pystr \<Rightarrow> pystr list" where
  "split_hdr bol piece [] = [piece]"
| "split_hdr bol piece (c # cs) =
     (case (if bol then header_at (c # cs) else None) of
        Some k \<Rightarrow>
          piece # take k (c # cs) #
            split_hdr (last (take k (c # cs)) = 10) [] (drop k (c # cs))
      | None \<Rightarrow> split_hdr (c = 10) (piece @ [c]) cs)"
  by pat_completeness auto
termination
  by (relation "measure (\<lambda>(bol, piece, s). length s)")
     (auto simp: header_at_def split: if_splits)

definition re_split_headers :: "pystr \<Rightarrow> pystr list" where
  "re_split_headers document = split_hdr True [] document"

text \<open>\<open>re.findall(r'^#{1,6}\s+.+$', document, re.MULTILINE)\<close>: the matches alone.\<close>

function findall_hdr :: "bool \<Rightarrow> pystr \<Rightarrow> pystr list" where
  "findall_hdr bol [] = []"
| "findall_hdr bol (c # cs) =
     (case (if bol then header_at (c # cs) else None) of
        Some k \<Rightarrow>
          take k (c # cs) # findall_hdr (last (take k (c # cs)) = 10) (drop k (c # cs))
      | None \<Rightarrow> findall_hdr (c = 10) cs)"
  by pat_completeness auto
termination
  by (relation "measure (\<lambda>(bol, s). length s)")
     (auto simp: header_at_def split: if_splits)

definition re_findall_headers :: "pystr \<Rightarrow> pystr list" where
  "re_findall_headers document = findall_hdr True document"

text \<open>
  \<open>re.match(r'^#{1,6}\s+', section)\<close> as a truth value: one to six \<open>#\<close> at the head
  of the section, then white space. \<open>hashes_ws m\<close> is \<open>#{0,m}\s+\<close>.
\<close>

definition starts_ws :: "pystr \<Rightarrow> bool" where
  "starts_ws s = (case s of [] \<Rightarrow> False | c # cs \<Rightarrow> is_space c)"

fun hashes_ws :: "nat \<Rightarrow> pystr \<Rightarrow> bool" where
  "hashes_ws 0 s = starts_ws s"
| "hashes_ws (Suc m) [] = starts_ws []"
| "hashes_ws (Suc m) (c # cs) =
     (if c = 35 then (hashes_ws m cs \<or> starts_ws (c # cs)) else starts_ws (c # cs))"

definition is_header :: "pystr \<Rightarrow> bool" where
  "is_header section =
     (case section of [] \<Rightarrow> False | c # cs \<Rightarrow> c = 35 \<and> hashes_ws 5 cs)"

section \<open>The paragraph strategy: \<open>chunk_by_paragraphs\<close>\<close>

text \<open>
  The state of the two packing loops: the chunks emitted, \<open>current_chunk\<close>,
  \<open>current_start\<close> and \<open>index\<close>.
\<close>

type_synonym pack_state = "ChunkInfo list \<times> pystr \<times> int \<times> int"

definition PARA_SEP :: pystr where
  "PARA_SEP = lit ''\<newline>\<newline>''"

fun para_loop :: "int \<Rightarrow> pystr list \<Rightarrow> pack_state \<Rightarrow> pack_state" where
  "para_loop max_chunk_size [] st = st"
| "para_loop max_chunk_size (para # paragraphs) (chunks, current_chunk, current_start, idx) =
     (if len current_chunk + len para > max_chunk_size \<and> current_chunk \<noteq> [] then
        para_loop max_chunk_size paragraphs
          (chunks @ [make_chunk idx current_start (current_start + len current_chunk)
                       current_chunk],
           para @ PARA_SEP, current_start + len current_chunk, idx + 1)
      else
        para_loop max_chunk_size paragraphs
          (chunks, current_chunk @ para @ PARA_SEP, current_start, idx))"

text \<open>The last block is emitted when \<open>current_chunk.strip()\<close> is not empty.\<close>

definition final_chunk :: "pack_state \<Rightarrow> ChunkInfo list" where
  "final_chunk st =
     (case st of (chunks, current_chunk, current_start, idx) \<Rightarrow>
        if strip current_chunk \<noteq> [] then
          chunks @ [make_chunk idx current_start (current_start + len current_chunk)
                      current_chunk]
        else chunks)"

definition chunk_by_paragraphs :: "pystr \<Rightarrow> int \<Rightarrow> ChunkInfo list" where
  "chunk_by_paragraphs document max_chunk_size =
     final_chunk (para_loop max_chunk_size (re_split_paragraphs document) ([], [], 0, 0))"

section \<open>The semantic strategy: \<open>chunk_by_headers\<close>\<close>

text \<open>What an iteration does with its \<open>section\<close>, once a heading is joined to its body.\<close>

definition pack_section :: "int \<Rightarrow> pystr \<Rightarrow> pack_state \<Rightarrow> pack_state" where
  "pack_section max_chunk_size section st =
     (case st of (chunks, current_chunk, current_start, idx) \<Rightarrow>
        if len current_chunk + len section > max_chunk_size \<and> current_chunk \<noteq> [] then
          (chunks @ [make_chunk idx current_start (current_start + len current_chunk)
                       current_chunk],
           section, current_start + len current_chunk, idx + 1)
        else (chunks, current_chunk @ section, current_start, idx))"

text \<open>
  The \<open>while i < len(sections)\<close> loop, on the sections from \<open>i\<close> on: a section that
  starts as a heading takes the next section with it, when there is one.
\<close>

fun header_loop :: "int \<Rightarrow> pystr list \<Rightarrow> pack_state \<Rightarrow> pack_state" where
  "header_loop max_chunk_size [] st = st"
| "header_loop max_chunk_size [section] st = pack_section max_chunk_size section st"
| "header_loop max_chunk_size (section # nxt # sections) st =
     (if is_header section then
        header_loop max_chunk_size sections
          (pack_section max_chunk_size (section @ nxt) st)
      else
        header_loop max_chunk_size (nxt # sections)
          (pack_section max_chunk_size section st))"

definition chunk_by_headers :: "pystr \<Rightarrow> int \<Rightarrow> ChunkInfo list" where
  "chunk_by_headers document max_chunk_size =
     final_chunk (header_loop max_chunk_size (re_split_headers document) ([], [], 0, 0))"

section \<open>Metadata: \<open>create_metadata\<close>\<close>

text \<open>\<open>document.split('\n')\<close>: the lines, one more than there are line breaks.\<close>

fun split_lines :: "pystr \<Rightarrow> pystr \<Rightarrow> pystr list" where
  "split_lines piece [] = [piece]"
| "split_lines piece (c # cs) =
     (if c = 10 then piece # split_lines [] cs else split_lines (piece @ [c]) cs)"

text \<open>\<open>document.split()\<close>: the maximal runs of code points that are not white space.\<close>

fun split_words :: "pystr \<Rightarrow> pystr \<Rightarrow> pystr list" where
  "split_words piece [] = (if piece = [] then [] else [piece])"
| "split_words piece (c # cs) =
     (if is_space c then (if piece = [] then split_words [] cs else piece # split_words [] cs)
      else split_words (piece @ [c]) cs)"

record Metadata =
  char_count :: int
  token_estimate_md :: int
  line_count :: int
  word_count :: int
  header_count :: int
  headers_preview :: "pystr list"
  first_500_chars :: pystr
  last_500_chars :: pystr

definition create_metadata :: "pystr \<Rightarrow> Metadata" where
  "create_metadata document =
     (let lines = split_lines [] document;
          headers = re_findall_headers document
      in \<lparr>char_count = len document,
          token_estimate_md = len document div 4,
          line_count = len lines,
          word_count = len (split_words [] document),
          header_count = len headers,
          headers_preview = py_slice headers 0 10,
          first_500_chars = py_slice document 0 500,
          last_500_chars =
            (if len document > 500 then py_slice document (- 500) (len document)
             else document)\<rparr>)"

section \<open>The context: \<open>RLMContext\<close>\<close>

text \<open>
  The fields the operations below read and write. \<open>buffer\<close> and \<open>sub_call_results\<close>
  hold values of any type and are touched by no operation modelled here.
\<close>

record RLMContext =
  document :: pystr
  metadata :: Metadata
  chunks :: "ChunkInfo list"

definition new_context :: "pystr \<Rightarrow> RLMContext" where
  "new_context doc = \<lparr>document = doc, metadata = create_metadata doc, chunks = []\<rparr>"

text \<open>
  A match object of \<open>re.finditer\<close>: \<open>m.group()\<close>, \<open>m.start()\<close>, \<open>m.end()\<close> and
  \<open>m.groups()\<close>, a group that took no part being \<open>None\<close>.
\<close>

record re_match =
  m_group :: pystr
  m_start :: int
  m_end :: int
  m_groups :: "pystr option list"

text \<open>The dictionary \<open>search\<close> builds for a match, a field for each of its keys.\<close>

record Match =
  r_match :: pystr
  r_start :: int
  r_end :: int
  r_groups :: "pystr option list"
  r_context :: pystr

datatype error = ValueError pystr | ReError

text \<open>
  \<open>RLMContext.search\<close>. The regular expression engine is the library's: \<open>finditer\<close>
  stands for \<open>re.finditer\<close>, which raises \<open>re.error\<close> on a pattern that does not
  compile and otherwise gives the match objects in order.
\<close>

definition search ::
  "(pystr \<Rightarrow> pystr \<Rightarrow> int \<Rightarrow> error + re_match list) \<Rightarrow> RLMContext \<Rightarrow> pystr \<Rightarrow> int \<Rightarrow>
     error + Match list" where
  "search finditer self pattern flags =
     (case finditer pattern (document self) flags of
        Inl e \<Rightarrow> Inl e
      | Inr ms \<Rightarrow>
          Inr (map (\<lambda>m. \<lparr>r_match = m_group m, r_start = m_start m, r_end = m_end m,
                          r_groups = m_groups m,
                          r_context = py_slice (document self) (max 0 (m_start m - 50))
                                      (m_end m + 50)\<rparr>) ms))"

text \<open>
  \<open>RLMContext.chunk\<close>: the context with its \<open>chunks\<close> replaced, and the chunks.
  \<open>None\<close> is a call that never returns, \<open>Inl\<close> the exception raised.
\<close>

definition chunk ::
  "RLMContext \<Rightarrow> int \<Rightarrow> int \<Rightarrow> pystr \<Rightarrow> (error + RLMContext \<times> ChunkInfo list) option" where
  "chunk self chunk_size overlap strategy =
     (if strategy = lit ''uniform'' then
        (case chunk_document (document self) chunk_size overlap of
           None \<Rightarrow> None
         | Some cs \<Rightarrow> Some (Inr (self\<lparr>chunks := cs\<rparr>, cs)))
      else if strategy = lit ''paragraph'' then
        (let cs = chunk_by_paragraphs (document self) chunk_size
         in Some (Inr (self\<lparr>chunks := cs\<rparr>, cs)))
      else if strategy = lit ''semantic'' then
        (let cs = chunk_by_headers (document self) chunk_size
         in Some (Inr (self\<lparr>chunks := cs\<rparr>, cs)))
      else Some (Inl (ValueError (lit ''Unknown chunking strategy: '' @ strategy))))"

section \<open>Notions for the statements\<close>





text \<open>
  The units of the semantic strategy, as its loop forms them: a section that starts as a
  heading is one unit with the section after it, any other section is a unit of its own.
\<close>

fun header_units :: "pystr list \<Rightarrow> pystr list" where
  "header_units [] = []"
| "header_units [s] = [s]"
| "header_units (s # n # rest) =
     (if is_header s then (s @ n) # header_units rest else s # header_units (n # rest))"

text \<open>What the paragraph strategy makes of a group of paragraphs: each one, then \<open>"\n\n"\<close>.\<close>

definition para_join :: "pystr list \<Rightarrow> pystr" where
  "para_join g = concat (map (\<lambda>p. p @ PARA_SEP) g)"

text \<open>In a group, a unit longer than the bound is the only unit that is not empty.\<close>

definition lone :: "int \<Rightarrow> pystr list \<Rightarrow> bool" where
  "lone m g \<longleftrightarrow> (\<forall>u \<in> set g. len u > m \<longrightarrow> filter (\<lambda>v. v \<noteq> []) g = [u])"

section \<open>Searching backwards\<close>

lemma rfind_scan_absent:
  "sub \<noteq> [] \<Longrightarrow> hd sub \<notin> set s \<Longrightarrow> rfind_scan s sub lo k = - 1"
proof (induction k)
  case 0
  show ?case by simp
next
  case (Suc k)
  have "take (length sub) (drop (lo + k) s) \<noteq> sub"
  proof
    assume e: "take (length sub) (drop (lo + k) s) = sub"
    from Suc.prems(1) have "hd sub \<in> set sub" by simp
    with e have "hd sub \<in> set (take (length sub) (drop (lo + k) s))" by simp
    then have "hd sub \<in> set s" by (meson in_set_dropD in_set_takeD)
    with Suc.prems(2) show False by simp
  qed
  with Suc show ?case by simp
qed

lemma rfind_absent: "sub \<noteq> [] \<Longrightarrow> hd sub \<notin> set s \<Longrightarrow> rfind s sub a b = - 1"
  by (simp add: rfind_def Let_def rfind_scan_absent)

text \<open>
  The result of a search is \<open>-1\<close> or a place of the range searched, where the
  string sought lies, and the last such place.
\<close>

lemma rfind_scan_range:
  "rfind_scan s sub lo k = - 1 \<or> (int lo \<le> rfind_scan s sub lo k \<and> rfind_scan s sub lo k < int (lo + k))"
  by (induction k) auto

lemma rfind_scan_occurs:
  "rfind_scan s sub lo k \<noteq> - 1 \<Longrightarrow>
   take (length sub) (drop (nat (rfind_scan s sub lo k)) s) = sub"
  by (induction k) (auto split: if_splits simp flip: of_nat_add)

lemma rfind_scan_last:
  "lo \<le> j \<Longrightarrow> j < lo + k \<Longrightarrow> take (length sub) (drop j s) = sub \<Longrightarrow>
   (\<forall>j'. j < j' \<and> j' < lo + k \<longrightarrow> take (length sub) (drop j' s) \<noteq> sub) \<Longrightarrow>
   rfind_scan s sub lo k = int j"
proof (induction k)
  case 0
  then show ?case by simp
next
  case (Suc k)
  show ?case
  proof (cases "j = lo + k")
    case True
    with Suc.prems(3) show ?thesis by simp
  next
    case False
    with Suc.prems(2) have lt: "j < lo + k" by simp
    with Suc.prems(4) have "take (length sub) (drop (lo + k) s) \<noteq> sub" by simp
    moreover have "rfind_scan s sub lo k = int j"
      using Suc.prems lt by (intro Suc.IH) auto
    ultimately show ?thesis by simp
  qed
qed

lemma rfind_scan_none:
  "(\<forall>j. lo \<le> j \<and> j < lo + k \<longrightarrow> take (length sub) (drop j s) \<noteq> sub) \<Longrightarrow>
   rfind_scan s sub lo k = - 1"
  by (induction k) auto



text \<open>
  Where a string of one and of two code points lies.
\<close>

lemma occurs_one: "take (Suc 0) (drop j s) = [c] \<longleftrightarrow> j < length s \<and> s ! j = c"
proof (cases "j < length s")
  case True
  then have "drop j s = s ! j # drop (Suc j) s" by (simp add: Cons_nth_drop_Suc)
  with True show ?thesis by simp
next
  case False
  then show ?thesis by simp
qed

lemma occurs_two:
  "take (Suc (Suc 0)) (drop j s) = [a, b] \<longleftrightarrow> Suc j < length s \<and> s ! j = a \<and> s ! Suc j = b"
proof (cases "Suc j < length s")
  case True
  then have "drop j s = s ! j # s ! Suc j # drop (Suc (Suc j)) s"
    by (simp add: Cons_nth_drop_Suc Suc_lessD)
  with True show ?thesis by simp
next
  case False
  have "take (Suc (Suc 0)) (drop j s) \<noteq> [a, b]"
  proof
    assume "take (Suc (Suc 0)) (drop j s) = [a, b]"
    then have "length (take (Suc (Suc 0)) (drop j s)) = 2" by simp
    with False show False by simp
  qed
  with False show ?thesis by simp
qed

lemma NEWLINE_eq: "NEWLINE = [10]"
  by (simp add: NEWLINE_def lit_def)

lemma PERIOD_SPACE_eq: "PERIOD_SPACE = [46, 32]"
  by (simp add: PERIOD_SPACE_def lit_def)

text \<open>
  When the provisional end \<open>p\<close> is at least 200 and inside the document, the two
  searches of \<open>chunk_document\<close> go over the places \<open>p - 200\<close> to \<open>p - 1\<close>.
\<close>

lemma rfind_window_newline:
  assumes "200 \<le> p" "p < len d"
  shows "rfind d NEWLINE (p - 200) p = rfind_scan d [10] (nat (p - 200)) 200"
proof -
  have "clip_index (len d) (p - 200) = nat (p - 200)" "clip_index (len d) p = nat p"
    using assms by (simp_all add: clip_index_def)
  moreover have "Suc (nat p) - (nat (p - 200) + 1) = 200" using assms by simp
  ultimately show ?thesis by (simp add: rfind_def Let_def NEWLINE_eq)
qed

lemma rfind_window_period:
  assumes "200 \<le> p" "p < len d"
  shows "rfind d PERIOD_SPACE (p - 200) p = rfind_scan d [46, 32] (nat (p - 200)) 199"
proof -
  have "clip_index (len d) (p - 200) = nat (p - 200)" "clip_index (len d) p = nat p"
    using assms by (simp_all add: clip_index_def)
  moreover have "Suc (nat p) - (nat (p - 200) + 2) = 199" using assms by simp
  ultimately show ?thesis by (simp add: rfind_def Let_def PERIOD_SPACE_eq numeral_2_eq_2)
qed

section \<open>The end of a cut\<close>



text \<open>Without a line break and a period the cut is the provisional end.\<close>

lemma chunk_end_plain:
  "10 \<notin> set d \<Longrightarrow> 46 \<notin> set d \<Longrightarrow> 0 \<le> st \<Longrightarrow> chunk_end d cs st = min (st + cs) (len d)"
  by (simp add: chunk_end_def Let_def rfind_absent NEWLINE_def PERIOD_SPACE_def lit_def)

text \<open>
  A provisional end at or beyond the end of the document is not moved.
\<close>

lemma chunk_end_at_end: "len d \<le> start + cs \<Longrightarrow> chunk_end d cs start = len d"
  by (simp add: chunk_end_def Let_def)

text \<open>
  Where the search does not start at a negative index, that is for a provisional end
  \<open>p = start + chunk_size\<close> of at least 200, and for a start that is not negative, the
  cut is as C5 describes it: one past the last line break of \<open>[p - 200, p)\<close> after the
  start; without one, one past the space of the last period and space there; without
  both, \<open>p\<close>.
\<close>

lemma chunk_end_at_line_break:
  fixes i :: nat
  assumes p: "200 \<le> start + cs" "start + cs < len d"
    and win: "start + cs - 200 \<le> int i" "int i < start + cs"
    and i: "start < int i" "d ! i = 10"
    and last: "\<forall>j. i < j \<and> int j < start + cs \<longrightarrow> d ! j \<noteq> 10"
  shows "chunk_end d cs start = int i + 1"
proof -
  let ?p = "start + cs"
  have il: "i < length d" using win(2) p(2) by (simp add: len_def)
  have "rfind_scan d [10] (nat (?p - 200)) 200 = int i"
  proof (rule rfind_scan_last)
    show "nat (?p - 200) \<le> i" using win(1) by simp
    show "i < nat (?p - 200) + 200" using win(2) p(1) by simp
    show "take (length [10::nat]) (drop i d) = [10]" using il i(2) by (simp add: occurs_one)
    show "\<forall>j'. i < j' \<and> j' < nat (?p - 200) + 200 \<longrightarrow> take (length [10::nat]) (drop j' d) \<noteq> [10]"
    proof (intro allI impI)
      fix j' assume a: "i < j' \<and> j' < nat (?p - 200) + 200"
      moreover have "int (nat (?p - 200) + 200) = ?p" using p(1) by simp
      ultimately have "int j' < ?p" by linarith
      with a last have "d ! j' \<noteq> 10" by blast
      then show "take (length [10::nat]) (drop j' d) \<noteq> [10]" by (simp add: occurs_one)
    qed
  qed
  then have "rfind d NEWLINE (?p - 200) ?p = int i" using p by (simp add: rfind_window_newline)
  with p i(1) show ?thesis by (simp add: chunk_end_def Let_def)
qed

lemma no_line_break_found:
  assumes p: "200 \<le> start + cs" "start + cs < len d" and s: "0 \<le> start"
    and nonl: "\<forall>j. start + cs - 200 \<le> int j \<and> int j < start + cs \<and> start < int j \<longrightarrow> d ! j \<noteq> 10"
  shows "\<not> rfind d NEWLINE (start + cs - 200) (start + cs) > start"
proof
  let ?p = "start + cs"
  let ?r = "rfind_scan d [10] (nat (?p - 200)) 200"
  assume "rfind d NEWLINE (?p - 200) ?p > start"
  then have gt: "?r > start" using p by (simp add: rfind_window_newline)
  with s have ne: "?r \<noteq> - 1" by simp
  from rfind_scan_range[of d "[10]" "nat (?p - 200)" 200] ne
  have rg: "int (nat (?p - 200)) \<le> ?r" "?r < int (nat (?p - 200) + 200)" by auto
  from rfind_scan_occurs[OF ne] have "d ! nat ?r = 10" by (simp add: occurs_one)
  moreover have "d ! nat ?r \<noteq> 10"
    using nonl[rule_format, of "nat ?r"] rg gt p(1) s by simp
  ultimately show False by simp
qed

lemma chunk_end_at_period:
  fixes i :: nat
  assumes p: "200 \<le> start + cs" "start + cs < len d" and s: "0 \<le> start"
    and nonl: "\<forall>j. start + cs - 200 \<le> int j \<and> int j < start + cs \<and> start < int j \<longrightarrow> d ! j \<noteq> 10"
    and win: "start + cs - 200 \<le> int i" "int i + 1 < start + cs"
    and i: "start < int i" "d ! i = 46" "d ! Suc i = 32"
    and last: "\<forall>j. i < j \<and> int j + 1 < start + cs \<longrightarrow> \<not> (d ! j = 46 \<and> d ! Suc j = 32)"
  shows "chunk_end d cs start = int i + 2"
proof -
  let ?p = "start + cs"
  have il: "Suc i < length d" using win(2) p(2) by (simp add: len_def)
  have "rfind_scan d [46, 32] (nat (?p - 200)) 199 = int i"
  proof (rule rfind_scan_last)
    show "nat (?p - 200) \<le> i" using win(1) by simp
    show "i < nat (?p - 200) + 199" using win(2) p(1) by simp
    show "take (length [46, 32::nat]) (drop i d) = [46, 32]" using il i(2,3) by (simp add: occurs_two)
    show "\<forall>j'. i < j' \<and> j' < nat (?p - 200) + 199 \<longrightarrow> take (length [46, 32::nat]) (drop j' d) \<noteq> [46, 32]"
    proof (intro allI impI)
      fix j' assume a: "i < j' \<and> j' < nat (?p - 200) + 199"
      moreover have "int (nat (?p - 200) + 199) = ?p - 1" using p(1) by simp
      ultimately have "int j' + 1 < ?p" by linarith
      with a last have "\<not> (d ! j' = 46 \<and> d ! Suc j' = 32)" by blast
      then show "take (length [46, 32::nat]) (drop j' d) \<noteq> [46, 32]" by (simp add: occurs_two)
    qed
  qed
  then have "rfind d PERIOD_SPACE (?p - 200) ?p = int i" using p by (simp add: rfind_window_period)
  with p i(1) no_line_break_found[OF p s nonl] show ?thesis by (simp add: chunk_end_def Let_def)
qed

lemma chunk_end_hard_cut:
  assumes p: "200 \<le> start + cs" "start + cs < len d" and s: "0 \<le> start"
    and nonl: "\<forall>j. start + cs - 200 \<le> int j \<and> int j < start + cs \<and> start < int j \<longrightarrow> d ! j \<noteq> 10"
    and nops: "\<forall>j. start + cs - 200 \<le> int j \<and> int j + 1 < start + cs \<and> start < int j \<longrightarrow>
       \<not> (d ! j = 46 \<and> d ! Suc j = 32)"
  shows "chunk_end d cs start = start + cs"
proof -
  let ?p = "start + cs"
  let ?r = "rfind_scan d [46, 32] (nat (?p - 200)) 199"
  have "\<not> rfind d PERIOD_SPACE (?p - 200) ?p > start"
  proof
    assume "rfind d PERIOD_SPACE (?p - 200) ?p > start"
    then have gt: "?r > start" using p by (simp add: rfind_window_period)
    with s have ne: "?r \<noteq> - 1" by simp
    from rfind_scan_range[of d "[46, 32]" "nat (?p - 200)" 199] ne
    have rg: "int (nat (?p - 200)) \<le> ?r" "?r < int (nat (?p - 200) + 199)" by auto
    from rfind_scan_occurs[OF ne] have "d ! nat ?r = 46 \<and> d ! Suc (nat ?r) = 32"
      by (simp add: occurs_two)
    moreover have "\<not> (d ! nat ?r = 46 \<and> d ! Suc (nat ?r) = 32)"
      using nops[rule_format, of "nat ?r"] rg gt p(1) s by simp
    ultimately show False by simp
  qed
  with p no_line_break_found[OF p s nonl] show ?thesis by (simp add: chunk_end_def Let_def)
qed

text \<open>
  Such a cut is moved back by less than 200.
\<close>

lemma chunk_end_ge:
  assumes p: "200 \<le> start + cs" "start + cs < len d" and s: "0 \<le> start"
  shows "start + cs - 199 \<le> chunk_end d cs start"
proof -
  let ?p = "start + cs"
  let ?a = "rfind_scan d [10] (nat (?p - 200)) 200"
  let ?b = "rfind_scan d [46, 32] (nat (?p - 200)) 199"
  have a: "?a > start \<longrightarrow> ?p - 200 \<le> ?a"
    using rfind_scan_range[of d "[10]" "nat (?p - 200)" 200] s p(1) by auto
  have b: "?b > start \<longrightarrow> ?p - 200 \<le> ?b"
    using rfind_scan_range[of d "[46, 32]" "nat (?p - 200)" 199] s p(1) by auto
  show ?thesis
    using a b p by (auto simp: chunk_end_def Let_def rfind_window_newline rfind_window_period)
qed

section \<open>The loop of \<open>chunk_document\<close>\<close>

text \<open>
  If the loop returns, an invariant that holds at its start and that every iteration keeps
  holds of the result, together with the negation of the loop condition.
\<close>

lemma chunk_loop_rule:
  assumes run: "chunk_loop d cs ov st i cks = Some r"
    and init: "I st i cks"
    and step: "\<And>s j c. I s j c \<Longrightarrow> s < len d \<Longrightarrow>
            I (next_start d ov (chunk_end d cs s)) (j + 1)
              (c @ [make_chunk j s (chunk_end d cs s) (py_slice d s (chunk_end d cs s))])"
  shows "\<exists>s j. I s j r \<and> \<not> s < len d"
proof -
  have "d' = d \<and> cs' = cs \<and> ov' = ov \<longrightarrow> I st i cks \<longrightarrow> (\<exists>s j. I s j r \<and> \<not> s < len d)"
    if "chunk_loop d' cs' ov' st i cks = Some r" for d' cs' ov' st i cks r
  proof (rule chunk_loop.raw_induct
      [where P = "\<lambda>d' cs' ov' st i cks r.
         d' = d \<and> cs' = cs \<and> ov' = ov \<longrightarrow> I st i cks \<longrightarrow> (\<exists>s j. I s j r \<and> \<not> s < len d)",
       rotated, OF that])
    fix f d' cs' ov' st i cks r
    assume ih: "\<And>d' cs' ov' st i cks r. f d' cs' ov' st i cks = Some r \<Longrightarrow>
        d' = d \<and> cs' = cs \<and> ov' = ov \<longrightarrow> I st i cks \<longrightarrow> (\<exists>s j. I s j r \<and> \<not> s < len d)"
      and body: "(if st < len d' then
          f d' cs' ov' (next_start d' ov' (chunk_end d' cs' st)) (i + 1)
            (cks @ [make_chunk i st (chunk_end d' cs' st) (py_slice d' st (chunk_end d' cs' st))])
        else Some cks) = Some r"
    show "d' = d \<and> cs' = cs \<and> ov' = ov \<longrightarrow> I st i cks \<longrightarrow> (\<exists>s j. I s j r \<and> \<not> s < len d)"
    proof (intro impI)
      assume eq: "d' = d \<and> cs' = cs \<and> ov' = ov" and inv: "I st i cks"
      show "\<exists>s j. I s j r \<and> \<not> s < len d"
      proof (cases "st < len d")
        case True
        with body eq have "f d cs ov (next_start d ov (chunk_end d cs st)) (i + 1)
            (cks @ [make_chunk i st (chunk_end d cs st) (py_slice d st (chunk_end d cs st))]) = Some r"
          by simp
        from ih[OF this] step[OF inv True] show ?thesis by simp
      next
        case False
        with body eq have "r = cks" by simp
        with inv False show ?thesis by blast
      qed
    qed
  qed
  with run init show ?thesis by blast
qed

text \<open>
  The loop ends when \<open>chunk_size\<close> is more than 200 above \<open>overlap\<close>: every cut
  is then moved back by less than the start moves on.
\<close>

lemma chunk_loop_terminates:
  assumes ov: "0 \<le> ov" and wide: "ov + 200 < cs"
  shows "0 \<le> start \<Longrightarrow> \<exists>r. chunk_loop d cs ov start idx cks = Some r"
proof (induction "nat (len d - start)" arbitrary: start idx cks rule: less_induct)
  case less
  show ?case
  proof (cases "start < len d")
    case False
    then show ?thesis by (subst chunk_loop.simps) simp
  next
    case True
    let ?e = "chunk_end d cs start"
    let ?s = "next_start d ov ?e"
    have adv: "start < ?s"
    proof (cases "start + cs < len d")
      case lt: True
      have "start + cs - 199 \<le> ?e"
        using less.prems ov wide lt by (intro chunk_end_ge) auto
      then show ?thesis using wide ov by (auto simp: next_start_def)
    next
      case False
      then have "?e = len d" by (simp add: chunk_end_at_end)
      with True show ?thesis by (simp add: next_start_def)
    qed
    then have "nat (len d - ?s) < nat (len d - start)" using True by simp
    moreover have "0 \<le> ?s" using adv less.prems by simp
    ultimately have "\<exists>r. chunk_loop d cs ov ?s (idx + 1)
        (cks @ [make_chunk idx start ?e (py_slice d start ?e)]) = Some r"
      by (rule less.hyps)
    with True show ?thesis by (subst chunk_loop.simps) simp
  qed
qed

lemma uniform_terminates_wide:
  "0 \<le> overlap \<Longrightarrow> overlap + 200 < chunk_size \<Longrightarrow> \<exists>cks. chunk_document d chunk_size overlap = Some cks"
  unfolding chunk_document_def by (rule chunk_loop_terminates) simp_all

section \<open>The uniform strategy on given documents\<close>

text \<open>
  C7. The document of 1000 times \<open>"A"\<close>, cut by the uniform strategy with
  \<open>chunk_size = 300\<close> and \<open>overlap = 50\<close>, gives exactly four chunks, from 0 to 300,
  from 250 to 550, from 500 to 800 and from 750 to 1000, in this order.
\<close>

theorem uniform_1000_A:
  "map_option (map (\<lambda>c. (start_char c, end_char c)))
     (chunk_document (concat (replicate 1000 (lit ''A''))) 300 50) =
   Some [(0, 300), (250, 550), (500, 800), (750, 1000)]"
proof -
  have d: "concat (replicate 1000 (lit ''A'')) = replicate 1000 65"
    by (induction "1000 :: nat") (simp_all add: lit_def)
  show ?thesis
    unfolding d chunk_document_def
    by (subst chunk_loop.simps,
        simp add: chunk_end_plain len_def next_start_def make_chunk_def)+
qed

text \<open>
  C4. The loop of the uniform strategy does not end on every document with
  \<open>chunk_size > overlap \<ge> 0\<close>. On \<open>"AA\nAAAA"\<close> with \<open>chunk_size = 3\<close> and
  \<open>overlap = 2\<close> the first chunk ends after the line break, at 3, the next one starts
  at 1 and ends at the same line break, and every later chunk starts at 1 again:
  \<open>chunk_document\<close> never returns. (It does return whenever \<open>chunk_size\<close> is more
  than 200 above \<open>overlap\<close>, as shown above.)
\<close>

theorem uniform_loops_forever: "chunk_document (lit ''AA\<newline>AAAA'') 3 2 = None"
proof (cases "chunk_document (lit ''AA\<newline>AAAA'') 3 2")
  case None
  then show ?thesis .
next
  case (Some r)
  let ?d = "lit ''AA\<newline>AAAA''"
  have e0: "chunk_end ?d 3 0 = 3" by code_simp
  have e1: "chunk_end ?d 3 1 = 3" by code_simp
  have n: "len ?d = 7" by code_simp
  have "\<exists>s (j::int). (s = 0 \<or> s = 1) \<and> \<not> s < len ?d"
    by (rule chunk_loop_rule[where I = "\<lambda>s j c. s = 0 \<or> s = 1",
          OF Some[unfolded chunk_document_def]])
       (auto simp: e0 e1 n next_start_def)
  with n show ?thesis by auto
qed

text \<open>
  C5. The search for a line break goes from \<open>end - 200\<close>, which is negative when the
  provisional end is below 200 and then counts from the end of the document. In the
  document \<open>"A\n"\<close> followed by 300 times \<open>"A"\<close>, the cut that starts at 0 with
  \<open>chunk_size = 100\<close> has a line break at 1, after its start and less than 200 before
  the provisional end 100, and still ends at 100. (For a provisional end of at least 200
  and a start that is not negative the cut is as the claim says, as shown above.)
\<close>

theorem chunk_end_misses_line_break:
  "chunk_end (lit ''A\<newline>'' @ replicate 300 65) 100 0 = 100 \<and>
   (lit ''A\<newline>'' @ replicate 300 65) ! 1 = 10 \<and>
   len (lit ''A\<newline>'' @ replicate 300 65) = 302"
  by code_simp

section \<open>Coverage by the uniform strategy\<close>





section \<open>Errors of \<open>RLMContext.chunk\<close>\<close>

text \<open>
  C1, as the claim states it, fails: \<open>chunk\<close> checks neither \<open>chunk_size\<close> nor
  \<open>overlap\<close>. With \<open>overlap = 7 \<ge> chunk_size = 5\<close> the uniform strategy returns the
  one chunk of \<open>"abc"\<close>, and with \<open>chunk_size = 0\<close> the paragraph strategy returns a
  chunk too.
\<close>

theorem chunk_no_parameter_check:
  "chunk (new_context (lit ''abc'')) 5 7 (lit ''uniform'') =
     Some (Inr (new_context (lit ''abc'')\<lparr>chunks := [make_chunk 0 0 3 (lit ''abc'')]\<rparr>,
                [make_chunk 0 0 3 (lit ''abc'')])) \<and>
   chunk (new_context (lit ''abc'')) 0 0 (lit ''paragraph'') =
     Some (Inr (new_context (lit ''abc'')\<lparr>chunks := [make_chunk 0 0 5 (lit ''abc\<newline>\<newline>'')]\<rparr>,
                [make_chunk 0 0 5 (lit ''abc\<newline>\<newline>'')]))"
proof -
  have u: "chunk_document (lit ''abc'') 5 7 = Some [make_chunk 0 0 3 (lit ''abc'')]"
    by code_simp
  have p: "chunk_by_paragraphs (lit ''abc'') 0 = [make_chunk 0 0 5 (lit ''abc\<newline>\<newline>'')]"
    by code_simp
  have s: "lit ''paragraph'' \<noteq> lit ''uniform''"
    by (simp add: lit_def)
  show ?thesis
    by (simp add: chunk_def new_context_def Let_def u p s)
qed

text \<open>
  C1, amended. \<open>chunk\<close> raises an error exactly when the strategy name is none of
  \<open>uniform\<close>, \<open>paragraph\<close> and \<open>semantic\<close>, whatever \<open>chunk_size\<close> and \<open>overlap\<close> are.
\<close>

theorem chunk_raises_iff:
  "(\<exists>e. chunk self chunk_size overlap strategy = Some (Inl e)) \<longleftrightarrow>
   (strategy \<noteq> lit ''uniform'' \<and> strategy \<noteq> lit ''paragraph'' \<and> strategy \<noteq> lit ''semantic'')"
  by (auto simp: chunk_def Let_def split: option.splits)

theorem chunk_raises_iff_witness:
  "(\<exists>e. chunk (new_context (lit ''abc'')) 5 2 (lit ''sentence'') = Some (Inl e)) \<and>
   \<not> (\<exists>e. chunk (new_context (lit ''abc'')) 5 2 (lit ''semantic'') = Some (Inl e))"
proof -
  have a: "lit ''sentence'' \<noteq> lit ''uniform'' \<and> lit ''sentence'' \<noteq> lit ''paragraph'' \<and>
        lit ''sentence'' \<noteq> lit ''semantic''" by (simp add: lit_def)
  show ?thesis
    using chunk_raises_iff[of "new_context (lit ''abc'')" 5 2 "lit ''sentence''"]
      chunk_raises_iff[of "new_context (lit ''abc'')" 5 2 "lit ''semantic''"] a
    by simp
qed

section \<open>The context of a match\<close>

text \<open>A slice from a non-negative index is cut at the end of the list.\<close>

lemma py_slice_clipped:
  assumes "0 \<le> a" "a \<le> b"
  shows "py_slice d a b = take (nat (min (len d) b) - nat a) (drop (nat a) d)"
proof (cases "a \<le> len d")
  case True
  with assms show ?thesis
    by (auto simp: py_slice_def clip_index_def Let_def min_def len_def)
next
  case False
  with assms show ?thesis
    by (auto simp: py_slice_def clip_index_def Let_def min_def len_def)
qed

text \<open>
  C8. For every match that \<open>search\<close> returns, the context is the part of the document
  from \<open>max(0, start - 50)\<close> to \<open>min(len(document), end + 50)\<close>, and both offsets lie
  in the document. The match objects are those of the library, whose spans lie in the
  document: \<open>0 \<le> m.start() \<le> m.end() \<le> len(document)\<close>.
\<close>

theorem search_context_clipped:
  assumes "finditer pattern (document self) flags = Inr ms"
    and "\<forall>m \<in> set ms. 0 \<le> m_start m \<and> m_start m \<le> m_end m \<and> m_end m \<le> len (document self)"
  shows "\<exists>rs. search finditer self pattern flags = Inr rs \<and>
           map r_start rs = map m_start ms \<and> map r_end rs = map m_end ms \<and>
           (\<forall>r \<in> set rs.
              0 \<le> max 0 (r_start r - 50) \<and>
              max 0 (r_start r - 50) \<le> min (len (document self)) (r_end r + 50) \<and>
              min (len (document self)) (r_end r + 50) \<le> len (document self) \<and>
              r_context r =
                take (nat (min (len (document self)) (r_end r + 50)) - nat (max 0 (r_start r - 50)))
                  (drop (nat (max 0 (r_start r - 50))) (document self)))"
proof -
  let ?f = "\<lambda>m. \<lparr>r_match = m_group m, r_start = m_start m, r_end = m_end m,
                  r_groups = m_groups m,
                  r_context = py_slice (document self) (max 0 (m_start m - 50)) (m_end m + 50)\<rparr>"
  have s: "search finditer self pattern flags = Inr (map ?f ms)"
    using assms(1) by (simp add: search_def)
  have "\<forall>r \<in> set (map ?f ms).
              0 \<le> max 0 (r_start r - 50) \<and>
              max 0 (r_start r - 50) \<le> min (len (document self)) (r_end r + 50) \<and>
              min (len (document self)) (r_end r + 50) \<le> len (document self) \<and>
              r_context r =
                take (nat (min (len (document self)) (r_end r + 50)) - nat (max 0 (r_start r - 50)))
                  (drop (nat (max 0 (r_start r - 50))) (document self))"
  proof
    fix r assume "r \<in> set (map ?f ms)"
    then obtain m where m: "m \<in> set ms" and r: "r = ?f m" by auto
    from assms(2) m have b: "0 \<le> m_start m" "m_start m \<le> m_end m" "m_end m \<le> len (document self)"
      by auto
    have "py_slice (document self) (max 0 (m_start m - 50)) (m_end m + 50) =
       take (nat (min (len (document self)) (m_end m + 50)) - nat (max 0 (m_start m - 50)))
                  (drop (nat (max 0 (m_start m - 50))) (document self))"
      by (rule py_slice_clipped) (use b in auto)
    with b r show "0 \<le> max 0 (r_start r - 50) \<and>
              max 0 (r_start r - 50) \<le> min (len (document self)) (r_end r + 50) \<and>
              min (len (document self)) (r_end r + 50) \<le> len (document self) \<and>
              r_context r =
                take (nat (min (len (document self)) (r_end r + 50)) - nat (max 0 (r_start r - 50)))
                  (drop (nat (max 0 (r_start r - 50))) (document self))"
      by auto
  qed
  with s show ?thesis by (auto simp: comp_def)
qed

text \<open>The theorem at a match from 3 to 5 in a document of 60 code points.\<close>

theorem search_context_clipped_witness:
  "\<exists>rs. search (\<lambda>p d f. Inr [\<lparr>m_group = replicate 2 65, m_start = 3, m_end = 5, m_groups = []\<rparr>])
           (new_context (replicate 60 65)) (lit ''AA'') 0 = Inr rs \<and>
         map r_start rs = [3] \<and> map r_end rs = [5] \<and>
         (\<forall>r \<in> set rs. r_context r = replicate 55 65)"
proof -
  let ?m = "\<lparr>m_group = replicate 2 65, m_start = 3, m_end = 5, m_groups = []\<rparr> :: re_match"
  let ?fi = "\<lambda>(p::pystr) (d::pystr) (f::int). (Inr [?m] :: error + re_match list)"
  have d: "document (new_context (replicate 60 65)) = replicate 60 65"
    by (simp add: new_context_def)
  have h1: "?fi (lit ''AA'') (document (new_context (replicate 60 65))) 0 = Inr [?m]"
    by simp
  have h2: "\<forall>m \<in> set [?m]. 0 \<le> m_start m \<and> m_start m \<le> m_end m \<and>
        m_end m \<le> len (document (new_context (replicate 60 65)))"
    by (simp add: d len_def)
  show ?thesis
    using search_context_clipped[of ?fi "lit ''AA''" "new_context (replicate 60 65)" 0 "[?m]",
        OF h1 h2]
    by (auto simp: d len_def)
qed

section \<open>Metadata\<close>

text \<open>
  C9. \<open>create_metadata\<close> reads nothing but its argument: two results for the same
  document agree in every field, the character count is the length of the document and
  the token estimate is the character count divided by 4, rounded down.
\<close>

theorem create_metadata_deterministic:
  assumes "create_metadata d = m1" and "create_metadata d = m2"
  shows "m1 = m2 \<and> char_count m1 = len d \<and> token_estimate_md m1 = char_count m1 div 4 \<and>
     line_count m1 = line_count m2 \<and> word_count m1 = word_count m2 \<and>
     header_count m1 = header_count m2 \<and> headers_preview m1 = headers_preview m2 \<and>
     first_500_chars m1 = first_500_chars m2 \<and> last_500_chars m1 = last_500_chars m2 \<and>
     char_count m1 = char_count m2 \<and> token_estimate_md m1 = token_estimate_md m2"
  using assms by (auto simp: create_metadata_def Let_def)

theorem create_metadata_deterministic_witness:
  "char_count (create_metadata (lit ''# T\<newline>ab cd'')) = 9 \<and>
   token_estimate_md (create_metadata (lit ''# T\<newline>ab cd'')) = 2"
  using create_metadata_deterministic[of "lit ''# T\<newline>ab cd''"
      "create_metadata (lit ''# T\<newline>ab cd'')" "create_metadata (lit ''# T\<newline>ab cd'')"]
  by (simp add: len_def lit_def)

section \<open>Offsets and content of the chunks\<close>


text \<open>
  The start of a chunk of the uniform strategy can be negative, and its content is then
  not the text between its offsets: the line break at 1 ends the first chunk at 2, the
  overlap 3 puts the next start at \<open>-1\<close>, and \<open>document[-1:199]\<close> is empty.
\<close>

lemma uniform_negative_start:
  "map_option (map (\<lambda>c. (start_char c, end_char c, content c)))
     (chunk_document (lit ''A\<newline>'' @ replicate 248 65) 200 3) =
   Some [(0, 2, lit ''A\<newline>''), (- 1, 199, []), (196, 250, replicate 54 65)]"
proof -
  let ?d = "lit ''A\<newline>'' @ replicate 248 65"
  have d: "?d = [65, 10] @ replicate 248 65" by (simp add: lit_def)
  have n: "len ?d = 250" by (simp add: lit_def len_def)
  have e0: "chunk_end ?d 200 0 = int 1 + 1"
  proof (rule chunk_end_at_line_break)
    show "\<forall>j. 1 < j \<and> int j < 0 + 200 \<longrightarrow> ?d ! j \<noteq> 10"
      by (auto simp: d nth_append)
  qed (simp_all add: n, simp add: d)
  have e1: "chunk_end ?d 200 (- 1) = 199"
    by (simp add: chunk_end_def Let_def n rfind_def clip_index_def NEWLINE_eq PERIOD_SPACE_eq)
  have e2: "chunk_end ?d 200 196 = 250"
    using chunk_end_at_end[of ?d 196 200] by (simp add: n)
  have s: "py_slice ?d 0 2 = lit ''A\<newline>''" "py_slice ?d (- 1) 199 = []"
    "py_slice ?d 196 250 = replicate 54 65"
    by (simp_all add: py_slice_def Let_def n clip_index_def, simp_all add: lit_def)
  show ?thesis
    unfolding chunk_document_def
    by (subst chunk_loop.simps, simp add: e0 e1 e2 n s next_start_def make_chunk_def)+
qed



text \<open>\<open>s.strip()\<close> is empty exactly when \<open>s\<close> is white space only.\<close>

lemma strip_Nil_iff: "strip s = [] \<longleftrightarrow> (\<forall>c \<in> set s. is_space c)"
proof
  assume a: "strip s = []"
  have "dropWhile is_space s = []"
  proof (rule ccontr)
    assume n: "dropWhile is_space s \<noteq> []"
    then have h: "\<not> is_space (hd (dropWhile is_space s))" by (rule hd_dropWhile)
    from a have "dropWhile is_space (rev (dropWhile is_space s)) = []"
      by (simp add: strip_def)
    then have "\<forall>c \<in> set (rev (dropWhile is_space s)). is_space c"
      by (simp only: dropWhile_eq_Nil_conv)
    with n have "is_space (hd (dropWhile is_space s))" by simp
    with h show False by simp
  qed
  then show "\<forall>c \<in> set s. is_space c" by (simp only: dropWhile_eq_Nil_conv)
next
  assume "\<forall>c \<in> set s. is_space c"
  then have d: "dropWhile is_space s = []" by (simp only: dropWhile_eq_Nil_conv)
  show "strip s = []" unfolding strip_def d by simp
qed












section \<open>Units are packed whole\<close>

text \<open>The loop of the semantic strategy packs its units one after the other.\<close>

lemma header_loop_units:
  "header_loop m secs st = foldl (\<lambda>st u. pack_section m u st) st (header_units secs)"
  by (induction m secs st rule: header_loop.induct) auto

lemma para_join_simps [simp]:
  "para_join [] = []" "para_join (p # g) = p @ PARA_SEP @ para_join g"
  "para_join (g @ h) = para_join g @ para_join h"
  by (simp_all add: para_join_def)

lemma PARA_SEP_not_Nil: "PARA_SEP \<noteq> []"
  by (simp add: PARA_SEP_def lit_def)

lemma para_join_Nil_iff: "para_join g = [] \<longleftrightarrow> g = []"
  by (cases g) (simp_all add: PARA_SEP_not_Nil)

lemma len_para_join_ge: "u \<in> set g \<Longrightarrow> len u \<le> len (para_join g)"
  by (induction g) (auto simp: len_def)

lemma len_concat_ge: "u \<in> set g \<Longrightarrow> len u \<le> len (concat g)"
  by (induction g) (auto simp: len_def)

text \<open>
  The loop of the paragraph strategy, started with a block made of the group \<open>g\<close>:
  the groups emitted and the group of the last block are the paragraphs in their order,
  and a paragraph longer than the bound is alone in its group.
\<close>

lemma para_groups:
  assumes m: "0 \<le> m"
  shows "para_loop m ps (cks, cur, cs, i) = (cks', cur', cs', i') \<Longrightarrow> cur = para_join g \<Longrightarrow>
    (\<forall>u \<in> set g. len u > m \<longrightarrow> g = [u]) \<Longrightarrow>
    \<exists>gs g'. g @ ps = concat gs @ g' \<and>
       map content cks' = map content cks @ map para_join gs \<and> cur' = para_join g' \<and>
       (\<forall>h \<in> set gs. h \<noteq> [] \<and> (\<forall>u \<in> set h. len u > m \<longrightarrow> h = [u])) \<and>
       (\<forall>u \<in> set g'. len u > m \<longrightarrow> g' = [u])"
proof (induction ps arbitrary: cks cur cs i g)
  case Nil
  then show ?case by (intro exI[of _ "[]"] exI[of _ g]) simp
next
  case (Cons p ps)
  show ?case
  proof (cases "len cur + len p > m \<and> cur \<noteq> []")
    case True
    with Cons.prems(1) have run: "para_loop m ps
        (cks @ [make_chunk i cs (cs + len cur) cur], p @ PARA_SEP, cs + len cur, i + 1) =
        (cks', cur', cs', i')" by simp
    have "\<exists>gs g'. [p] @ ps = concat gs @ g' \<and>
       map content cks' = map content (cks @ [make_chunk i cs (cs + len cur) cur]) @ map para_join gs \<and>
       cur' = para_join g' \<and>
       (\<forall>h \<in> set gs. h \<noteq> [] \<and> (\<forall>u \<in> set h. len u > m \<longrightarrow> h = [u])) \<and>
       (\<forall>u \<in> set g'. len u > m \<longrightarrow> g' = [u])"
      by (rule Cons.IH[OF run]) simp_all
    then obtain gs g' where r: "[p] @ ps = concat gs @ g'"
      "map content cks' = map content (cks @ [make_chunk i cs (cs + len cur) cur]) @ map para_join gs"
      "cur' = para_join g'"
      "\<forall>h \<in> set gs. h \<noteq> [] \<and> (\<forall>u \<in> set h. len u > m \<longrightarrow> h = [u])"
      "\<forall>u \<in> set g'. len u > m \<longrightarrow> g' = [u]" by blast
    from True Cons.prems(2) have gne: "g \<noteq> []" by auto
    show ?thesis
    proof (intro exI[of _ "g # gs"] exI[of _ g'] conjI)
      show "g @ p # ps = concat (g # gs) @ g'" using r(1) by simp
      show "map content cks' = map content cks @ map para_join (g # gs)"
        using r(2) Cons.prems(2) by (simp add: make_chunk_def)
      show "cur' = para_join g'" by (rule r(3))
      show "\<forall>h \<in> set (g # gs). h \<noteq> [] \<and> (\<forall>u \<in> set h. len u > m \<longrightarrow> h = [u])"
        using r(4) gne Cons.prems(3) by simp
      show "\<forall>u \<in> set g'. len u > m \<longrightarrow> g' = [u]" by (rule r(5))
    qed
  next
    case False
    with Cons.prems(1) have run: "para_loop m ps (cks, cur @ p @ PARA_SEP, cs, i) =
        (cks', cur', cs', i')" by auto
    have w: "\<forall>u \<in> set (g @ [p]). len u > m \<longrightarrow> g @ [p] = [u]"
    proof (cases "g = []")
      case True
      then show ?thesis by simp
    next
      case ne: False
      then have "cur \<noteq> []" using Cons.prems(2) by (simp add: para_join_Nil_iff)
      with False have le: "len cur + len p \<le> m" by simp
      have "len p \<le> m" using le by (simp add: len_def)
      moreover have "\<forall>u \<in> set g. len u \<le> m"
      proof
        fix u assume "u \<in> set g"
        then have "len u \<le> len cur" using Cons.prems(2) by (simp add: len_para_join_ge)
        with le show "len u \<le> m" by (simp add: len_def)
      qed
      ultimately show ?thesis by auto
    qed
    have "\<exists>gs g'. (g @ [p]) @ ps = concat gs @ g' \<and>
       map content cks' = map content cks @ map para_join gs \<and> cur' = para_join g' \<and>
       (\<forall>h \<in> set gs. h \<noteq> [] \<and> (\<forall>u \<in> set h. len u > m \<longrightarrow> h = [u])) \<and>
       (\<forall>u \<in> set g'. len u > m \<longrightarrow> g' = [u])"
      by (rule Cons.IH[OF run _ w]) (simp add: Cons.prems(2))
    then show ?thesis by simp
  qed
qed

lemma filter_nonempty_concat_Nil: "concat g = [] \<Longrightarrow> filter (\<lambda>v. v \<noteq> []) g = []"
  by (induction g) auto

text \<open>
  The same for the loop of the semantic strategy, on its units.
\<close>

lemma header_groups:
  assumes m: "0 \<le> m"
  shows "foldl (\<lambda>st u. pack_section m u st) (cks, cur, cs, i) us = (cks', cur', cs', i') \<Longrightarrow>
    cur = concat g \<Longrightarrow> lone m g \<Longrightarrow>
    \<exists>gs g'. g @ us = concat gs @ g' \<and>
       map content cks' = map content cks @ map concat gs \<and> cur' = concat g' \<and>
       (\<forall>h \<in> set gs. h \<noteq> [] \<and> lone m h) \<and> lone m g'"
proof (induction us arbitrary: cks cur cs i g)
  case Nil
  then show ?case by (intro exI[of _ "[]"] exI[of _ g]) simp
next
  case (Cons p ps)
  show ?case
  proof (cases "len cur + len p > m \<and> cur \<noteq> []")
    case True
    with Cons.prems(1) have run: "foldl (\<lambda>st u. pack_section m u st)
        (cks @ [make_chunk i cs (cs + len cur) cur], p, cs + len cur, i + 1) ps =
        (cks', cur', cs', i')" by (simp add: pack_section_def)
    have lp: "lone m [p]" using m by (auto simp: lone_def len_def)
    have "\<exists>gs g'. [p] @ ps = concat gs @ g' \<and>
       map content cks' = map content (cks @ [make_chunk i cs (cs + len cur) cur]) @ map concat gs \<and>
       cur' = concat g' \<and> (\<forall>h \<in> set gs. h \<noteq> [] \<and> lone m h) \<and> lone m g'"
      by (rule Cons.IH[OF run _ lp]) simp
    then obtain gs g' where r: "[p] @ ps = concat gs @ g'"
      "map content cks' = map content (cks @ [make_chunk i cs (cs + len cur) cur]) @ map concat gs"
      "cur' = concat g'" "\<forall>h \<in> set gs. h \<noteq> [] \<and> lone m h" "lone m g'" by blast
    from True Cons.prems(2) have gne: "g \<noteq> []" by auto
    show ?thesis
    proof (intro exI[of _ "g # gs"] exI[of _ g'] conjI)
      show "g @ p # ps = concat (g # gs) @ g'" using r(1) by simp
      show "map content cks' = map content cks @ map concat (g # gs)"
        using r(2) Cons.prems(2) by (simp add: make_chunk_def)
      show "cur' = concat g'" by (rule r(3))
      show "\<forall>h \<in> set (g # gs). h \<noteq> [] \<and> lone m h"
        using r(4) gne Cons.prems(3) by simp
      show "lone m g'" by (rule r(5))
    qed
  next
    case False
    with Cons.prems(1) have run: "foldl (\<lambda>st u. pack_section m u st)
        (cks, cur @ p, cs, i) ps = (cks', cur', cs', i')" by (auto simp: pack_section_def)
    have w: "lone m (g @ [p])"
    proof (cases "cur = []")
      case True
      then have "filter (\<lambda>v. v \<noteq> []) g = []"
        using Cons.prems(2) by (simp add: filter_nonempty_concat_Nil)
      moreover from this have "\<forall>u \<in> set g. u = []"
        by (simp add: filter_empty_conv)
      ultimately show ?thesis using m by (auto simp: lone_def len_def)
    next
      case ne: False
      with False have le: "len cur + len p \<le> m" by simp
      have "len p \<le> m" using le by (simp add: len_def)
      moreover have "\<forall>u \<in> set g. len u \<le> m"
      proof
        fix u assume "u \<in> set g"
        then have "len u \<le> len cur" using Cons.prems(2) by (simp add: len_concat_ge)
        with le show "len u \<le> m" by (simp add: len_def)
      qed
      ultimately show ?thesis by (auto simp: lone_def)
    qed
    have "\<exists>gs g'. (g @ [p]) @ ps = concat gs @ g' \<and>
       map content cks' = map content cks @ map concat gs \<and> cur' = concat g' \<and>
       (\<forall>h \<in> set gs. h \<noteq> [] \<and> lone m h) \<and> lone m g'"
      by (rule Cons.IH[OF run _ w]) (simp add: Cons.prems(2))
    then show ?thesis by simp
  qed
qed

text \<open>
  C6, as the claim states it, fails: a unit of the last block is in no segment when that
  block is white space only. The document of three spaces is one paragraph, longer than
  \<open>max_size = 1\<close>, and the paragraph strategy returns no segment at all.
\<close>

theorem oversized_blank_paragraph_dropped:
  "re_split_paragraphs (lit ''   '') = [lit ''   ''] \<and> len (lit ''   '') = 3 \<and>
   chunk_by_paragraphs (lit ''   '') 1 = []"
  by code_simp

text \<open>
  C6, amended. For \<open>max_size > 0\<close>, under both strategies the contents of the segments
  are made of whole units, in their order: the units split into consecutive groups, one
  group for each segment, and a rest that is in no segment, which is the last block when
  it is white space only. No unit is cut, and a unit longer than \<open>max_size\<close> is alone in
  its group: under the paragraph strategy the group is this paragraph, under the semantic
  strategy it is the only unit of its group that is not empty.
\<close>

theorem units_kept_whole:
  assumes "0 < m"
  shows "(\<exists>gs dropped. re_split_paragraphs d = concat gs @ dropped \<and>
            map content (chunk_by_paragraphs d m) = map para_join gs \<and>
            (\<forall>g \<in> set gs. g \<noteq> [] \<and> (\<forall>u \<in> set g. len u > m \<longrightarrow> g = [u])) \<and>
            (\<forall>c \<in> set (para_join dropped). is_space c)) \<and>
         (\<exists>gs dropped. header_units (re_split_headers d) = concat gs @ dropped \<and>
            map content (chunk_by_headers d m) = map concat gs \<and>
            (\<forall>g \<in> set gs. g \<noteq> [] \<and>
               (\<forall>u \<in> set g. len u > m \<longrightarrow> filter (\<lambda>v. v \<noteq> []) g = [u])) \<and>
            (\<forall>c \<in> set (concat dropped). is_space c))"
proof
  have m: "0 \<le> m" using assms by simp
  obtain cks cur cs i where
    run: "para_loop m (re_split_paragraphs d) ([], [], 0, 0) = (cks, cur, cs, i)"
    by (metis prod_cases4)
  have "\<exists>gs g'. [] @ re_split_paragraphs d = concat gs @ g' \<and>
       map content cks = map content ([] :: ChunkInfo list) @ map para_join gs \<and> cur = para_join g' \<and>
       (\<forall>h \<in> set gs. h \<noteq> [] \<and> (\<forall>u \<in> set h. len u > m \<longrightarrow> h = [u])) \<and>
       (\<forall>u \<in> set g'. len u > m \<longrightarrow> g' = [u])"
    by (rule para_groups[OF m run]) simp_all
  then obtain gs g' where r: "re_split_paragraphs d = concat gs @ g'"
    "map content cks = map para_join gs" "cur = para_join g'"
    "\<forall>h \<in> set gs. h \<noteq> [] \<and> (\<forall>u \<in> set h. len u > m \<longrightarrow> h = [u])"
    "\<forall>u \<in> set g'. len u > m \<longrightarrow> g' = [u]" by auto
  show "\<exists>gs dropped. re_split_paragraphs d = concat gs @ dropped \<and>
            map content (chunk_by_paragraphs d m) = map para_join gs \<and>
            (\<forall>g \<in> set gs. g \<noteq> [] \<and> (\<forall>u \<in> set g. len u > m \<longrightarrow> g = [u])) \<and>
            (\<forall>c \<in> set (para_join dropped). is_space c)"
  proof (cases "strip cur \<noteq> []")
    case True
    then have "cur \<noteq> []" by (auto simp: strip_def)
    then have gne: "g' \<noteq> []" using r(3) by auto
    have c: "chunk_by_paragraphs d m = cks @ [make_chunk i cs (cs + len cur) cur]"
      using run True by (simp add: chunk_by_paragraphs_def final_chunk_def)
    show ?thesis
      by (intro exI[of _ "gs @ [g']"] exI[of _ "[]"])
         (use r gne c in \<open>simp add: make_chunk_def\<close>)
  next
    case False
    then have ws: "\<forall>c \<in> set cur. is_space c" by (simp add: strip_Nil_iff)
    have c: "chunk_by_paragraphs d m = cks"
      using run False by (simp add: chunk_by_paragraphs_def final_chunk_def)
    show ?thesis
      by (intro exI[of _ gs] exI[of _ g']) (use r ws c in simp)
  qed
next
  have m: "0 \<le> m" using assms by simp
  obtain cks cur cs i where
    run: "header_loop m (re_split_headers d) ([], [], 0, 0) = (cks, cur, cs, i)"
    by (metis prod_cases4)
  then have run': "foldl (\<lambda>st u. pack_section m u st) ([], [], 0, 0)
      (header_units (re_split_headers d)) = (cks, cur, cs, i)"
    by (simp add: header_loop_units)
  have "\<exists>gs g'. [] @ header_units (re_split_headers d) = concat gs @ g' \<and>
       map content cks = map content ([] :: ChunkInfo list) @ map concat gs \<and> cur = concat g' \<and>
       (\<forall>h \<in> set gs. h \<noteq> [] \<and> lone m h) \<and> lone m g'"
    by (rule header_groups[OF m run']) (simp_all add: lone_def)
  then obtain gs g' where r: "header_units (re_split_headers d) = concat gs @ g'"
    "map content cks = map concat gs" "cur = concat g'"
    "\<forall>h \<in> set gs. h \<noteq> [] \<and> lone m h" "lone m g'" by auto
  show "\<exists>gs dropped. header_units (re_split_headers d) = concat gs @ dropped \<and>
            map content (chunk_by_headers d m) = map concat gs \<and>
            (\<forall>g \<in> set gs. g \<noteq> [] \<and>
               (\<forall>u \<in> set g. len u > m \<longrightarrow> filter (\<lambda>v. v \<noteq> []) g = [u])) \<and>
            (\<forall>c \<in> set (concat dropped). is_space c)"
  proof (cases "strip cur \<noteq> []")
    case True
    then have "cur \<noteq> []" by (auto simp: strip_def)
    then have gne: "g' \<noteq> []" using r(3) by auto
    have c: "chunk_by_headers d m = cks @ [make_chunk i cs (cs + len cur) cur]"
      using run True by (simp add: chunk_by_headers_def final_chunk_def)
    show ?thesis
      by (intro exI[of _ "gs @ [g']"] exI[of _ "[]"])
         (use r gne c in \<open>auto simp: make_chunk_def lone_def\<close>)
  next
    case False
    then have ws: "\<forall>c \<in> set cur. is_space c" by (simp add: strip_Nil_iff)
    have c: "chunk_by_headers d m = cks"
      using run False by (simp add: chunk_by_headers_def final_chunk_def)
    show ?thesis
      by (intro exI[of _ gs] exI[of _ g']) (use r ws c in \<open>auto simp: lone_def\<close>)
  qed
qed

theorem units_kept_whole_witness:
  "\<exists>gs dropped.
     re_split_paragraphs (lit ''Para one.\<newline>\<newline>Para two.\<newline>\<newline>Para three.'') = concat gs @ dropped \<and>
     map content (chunk_by_paragraphs (lit ''Para one.\<newline>\<newline>Para two.\<newline>\<newline>Para three.'') 15) =
       map para_join gs \<and>
     (\<forall>g \<in> set gs. g \<noteq> [] \<and> (\<forall>u \<in> set g. len u > 15 \<longrightarrow> g = [u])) \<and>
     (\<forall>c \<in> set (para_join dropped). is_space c)"
proof -
  have "(0::int) < 15" by simp
  from units_kept_whole[OF this, of "lit ''Para one.\<newline>\<newline>Para two.\<newline>\<newline>Para three.''"]
  show ?thesis by (rule conjunct1)
qed

section \<open>Documents of white space\<close>

text \<open>A separator of paragraphs has at least two code points.\<close>

lemma ws_star_nl_bounds: "ws_star_nl s = Some k \<Longrightarrow> 1 \<le> k \<and> k \<le> length s"
  by (induction s arbitrary: k) (auto split: if_splits option.splits)

lemma blank_sep_bounds: "blank_sep s = Some k \<Longrightarrow> 2 \<le> k \<and> k \<le> length s"
  by (auto simp: blank_sep_def split: list.splits if_splits dest: ws_star_nl_bounds)

text \<open>
  The paragraphs, each with the two code points of \<open>"\n\n"\<close>, are not longer than the
  document and one \<open>"\n\n"\<close>; and they are made of code points of the document.
\<close>

lemma split_blank_total:
  "(\<Sum>p\<leftarrow>split_blank piece s. length p + 2) \<le> length piece + length s + 2"
proof (induction piece s rule: split_blank.induct)
  case (1 piece)
  show ?case by simp
next
  case (2 piece c cs)
  show ?case
  proof (cases "blank_sep (c # cs)")
    case None
    with 2(1)[OF None] show ?thesis by simp
  next
    case (Some k)
    from blank_sep_bounds[OF Some] have k: "2 \<le> k" "k \<le> length (c # cs)" by auto
    from 2(2)[OF Some] have "(\<Sum>p\<leftarrow>split_blank [] (drop k (c # cs)). length p + 2)
        \<le> length (drop k (c # cs)) + 2" by simp
    with Some k show ?thesis by simp
  qed
qed

lemma split_blank_set: "set (concat (split_blank piece s)) \<subseteq> set piece \<union> set s"
proof (induction piece s rule: split_blank.induct)
  case (1 piece)
  show ?case by simp
next
  case (2 piece c cs)
  show ?case
  proof (cases "blank_sep (c # cs)")
    case None
    with 2(1)[OF None] show ?thesis by auto
  next
    case (Some k)
    from 2(2)[OF Some] have "set (concat (split_blank [] (drop k (c # cs)))) \<subseteq> set (drop k (c # cs))"
      by simp
    also have "\<dots> \<subseteq> set (c # cs)" by (rule set_drop_subset)
    finally show ?thesis using Some by auto
  qed
qed

lemma int_sum_len: "int (\<Sum>p\<leftarrow>ps. length p + 2) = (\<Sum>p\<leftarrow>ps. len p + 2)"
  by (induction ps) (simp_all add: len_def)

text \<open>Paragraphs that fit the bound together are packed into one block.\<close>

lemma para_loop_fits:
  "len cur + (\<Sum>p\<leftarrow>ps. len p + 2) \<le> m + 2 \<Longrightarrow>
   para_loop m ps (cks, cur, cs, i) = (cks, cur @ para_join ps, cs, i)"
proof (induction ps arbitrary: cur)
  case Nil
  show ?case by simp
next
  case (Cons p ps)
  have nn: "0 \<le> (\<Sum>p\<leftarrow>ps. len p + 2)"
    by (rule sum_list_nonneg) (auto simp: len_def)
  with Cons.prems have le: "\<not> len cur + len p > m" by simp
  have "len (cur @ p @ PARA_SEP) + (\<Sum>p\<leftarrow>ps. len p + 2) \<le> m + 2"
    using Cons.prems by (simp add: len_def PARA_SEP_def lit_def)
  from Cons.IH[OF this] le show ?case by simp
qed

text \<open>A document without \<open>#\<close> has no heading.\<close>

lemma split_hdr_no_hash: "35 \<notin> set s \<Longrightarrow> split_hdr bol piece s = [piece @ s]"
  by (induction bol piece s rule: split_hdr.induct) (auto simp: header_at_def)

lemma space_not_hash: "is_space c \<Longrightarrow> c \<noteq> 35"
  by (auto simp: is_space_def)

text \<open>
  C10, as the claim states it, fails: only the last block is tested for white space. The
  document \<open>" \n\n "\<close> is white space only, and with \<open>max_size = 1\<close> the paragraph
  strategy emits the block of its first paragraph when the second one no longer fits.
\<close>

theorem blank_document_paragraph_chunk:
  "list_all is_space (lit '' \<newline>\<newline> '') \<and>
   chunk_by_paragraphs (lit '' \<newline>\<newline> '') 1 = [make_chunk 0 0 3 (lit '' \<newline>\<newline>'')]"
  by code_simp

text \<open>
  C10, amended. Under both strategies the block left at the end of the loop is emitted
  exactly when it has a code point that is not white space; otherwise the result is the
  chunks emitted in the loop, and the block is in no segment. For a document of white
  space only (the empty one too) the semantic strategy returns no segment, and so does
  the paragraph strategy when \<open>len(document) \<le> max_size\<close>.
\<close>

theorem final_block_rule:
  "chunk_by_paragraphs d m =
     (case para_loop m (re_split_paragraphs d) ([], [], 0, 0) of
        (cks, cur, cs, i) \<Rightarrow>
          if \<exists>c \<in> set cur. \<not> is_space c then cks @ [make_chunk i cs (cs + len cur) cur]
          else cks) \<and>
   chunk_by_headers d m =
     (case header_loop m (re_split_headers d) ([], [], 0, 0) of
        (cks, cur, cs, i) \<Rightarrow>
          if \<exists>c \<in> set cur. \<not> is_space c then cks @ [make_chunk i cs (cs + len cur) cur]
          else cks) \<and>
   ((\<forall>c \<in> set d. is_space c) \<longrightarrow> chunk_by_headers d m = []) \<and>
   ((\<forall>c \<in> set d. is_space c) \<and> len d \<le> m \<longrightarrow> chunk_by_paragraphs d m = [])"
proof (intro conjI impI)
  show "chunk_by_paragraphs d m =
     (case para_loop m (re_split_paragraphs d) ([], [], 0, 0) of
        (cks, cur, cs, i) \<Rightarrow>
          if \<exists>c \<in> set cur. \<not> is_space c then cks @ [make_chunk i cs (cs + len cur) cur]
          else cks)"
    by (auto simp: chunk_by_paragraphs_def final_chunk_def strip_Nil_iff split: prod.splits)
  show "chunk_by_headers d m =
     (case header_loop m (re_split_headers d) ([], [], 0, 0) of
        (cks, cur, cs, i) \<Rightarrow>
          if \<exists>c \<in> set cur. \<not> is_space c then cks @ [make_chunk i cs (cs + len cur) cur]
          else cks)"
    by (auto simp: chunk_by_headers_def final_chunk_def strip_Nil_iff split: prod.splits)
next
  assume ws: "\<forall>c \<in> set d. is_space c"
  then have "35 \<notin> set d" using space_not_hash by blast
  then have "re_split_headers d = [d]"
    by (simp add: re_split_headers_def split_hdr_no_hash)
  moreover have "strip d = []" using ws by (simp add: strip_Nil_iff)
  ultimately show "chunk_by_headers d m = []"
    by (simp add: chunk_by_headers_def pack_section_def final_chunk_def)
next
  assume a: "(\<forall>c \<in> set d. is_space c) \<and> len d \<le> m"
  let ?ps = "re_split_paragraphs d"
  have "(\<Sum>p\<leftarrow>?ps. length p + 2) \<le> length d + 2"
    using split_blank_total[of "[]" d] by (simp add: re_split_paragraphs_def)
  then have "int (\<Sum>p\<leftarrow>?ps. length p + 2) \<le> int (length d + 2)" by (rule iffD2[OF of_nat_le_iff])
  moreover have "int (\<Sum>p\<leftarrow>?ps. length p + 2) = (\<Sum>p\<leftarrow>?ps. len p + 2)"
    by (rule int_sum_len)
  ultimately have "len [] + (\<Sum>p\<leftarrow>?ps. len p + 2) \<le> m + 2"
    using a by (simp add: len_def)
  then have run: "para_loop m ?ps ([], [], 0, 0) = ([], [] @ para_join ?ps, 0, 0)"
    by (rule para_loop_fits)
  have "set (concat ?ps) \<subseteq> set d"
    using split_blank_set[of "[]" d] by (simp add: re_split_paragraphs_def)
  then have "\<forall>p \<in> set ?ps. \<forall>c \<in> set p. is_space c" using a by auto
  then have "\<forall>c \<in> set (para_join ?ps). is_space c"
    by (auto simp: para_join_def PARA_SEP_def lit_def is_space_def)
  then have "strip (para_join ?ps) = []" by (simp add: strip_Nil_iff)
  with run show "chunk_by_paragraphs d m = []"
    by (simp add: chunk_by_paragraphs_def final_chunk_def)
qed

theorem final_block_rule_witness:
  "chunk_by_headers (lit '' \<newline>\<newline> '') 1 = [] \<and> chunk_by_paragraphs (lit '' \<newline>\<newline> '') 4 = []"
proof -
  have ws: "\<forall>c \<in> set (lit '' \<newline>\<newline> ''). is_space c"
    by (simp add: lit_def is_space_def)
  have l: "len (lit '' \<newline>\<newline> '') \<le> 4"
    by (simp add: lit_def len_def)
  show ?thesis
    using final_block_rule[of "lit '' \<newline>\<newline> ''" 1] final_block_rule[of "lit '' \<newline>\<newline> ''" 4] ws l
    by blast
qed

end
